theory Spec2Isabelle
  imports Main "HOL-Library.Word"
begin

section \<open>Data model\<close>

text \<open>
  A Python \<open>bytes\<close> object is a list of 8-bit words. A file opened for reading is the
  list of bytes not yet consumed; a file opened for writing is the list of bytes
  written so far. Lengths (\<open>len\<close>) are natural numbers; the parameters
  \<open>chunk_size\<close> and \<open>level\<close> are Python integers.
\<close>

type_synonym byte = "8 word"
type_synonym bytes = "byte list"

text \<open>
  The exceptions the two source files can raise: \<open>struct.error\<close> from
  \<open>struct.pack\<close>/\<open>struct.unpack\<close>; \<open>ValueError\<close> from a numpy slice assignment
  whose shapes do not broadcast and from \<open>read\<close> with a size below \<open>-1\<close>;
  \<open>OverflowError\<close> from \<open>read\<close> with a size no bytes object can have; the backend's
  \<open>ZstdError\<close>; and \<open>ZeroDivisionError\<close> from the summary printed after compression.
  Running out of memory is not modelled: every buffer whose size Python's own checks
  admit is taken to be allocated.
\<close>

datatype error = StructError | ValueError | OverflowError | ZstdError | ZeroDivisionError

section \<open>Library operations used by the source\<close>

subsection \<open>File reads and byte slices\<close>

text \<open>
  \<open>f.read(size)\<close> on a binary file opened with \<open>open(path, 'rb')\<close>, a buffered reader.
  A size below \<open>-1\<close> raises \<open>ValueError\<close> (read length must be non-negative or -1). A
  size from \<open>2^63 - 33\<close> on raises \<open>OverflowError\<close>: the reader asks for a bytes object
  of that size before it reads, and none can be that large (from \<open>2^63\<close> on the number
  does not even fit the argument). Size \<open>-1\<close> reads everything that is left. Any other
  size returns that many bytes, or all that is left when fewer remain (a buffered reader
  of a regular file returns less than asked only at the end of the file). A successful
  read pairs the bytes read with the rest of the file.
\<close>

definition file_read :: "int \<Rightarrow> bytes \<Rightarrow> error + bytes \<times> bytes" where
  "file_read sz f =
     (if sz < - 1 then Inl ValueError
      else if 9223372036854775775 \<le> sz then Inl OverflowError
      else if sz = - 1 then Inr (f, [])
      else Inr (take (nat sz) f, drop (nat sz) f))"

text \<open>\<open>b[-1:]\<close>: the last byte as a one-element buffer, empty when \<open>b\<close> is empty.\<close>

definition last1 :: "'a list \<Rightarrow> 'a list" where
  "last1 b = (if b = [] then [] else [last b])"

text \<open>\<open>b[lo:hi]\<close> for non-negative bounds.\<close>

definition slice :: "nat \<Rightarrow> nat \<Rightarrow> 'a list \<Rightarrow> 'a list" where
  "slice lo hi b = take (hi - lo) (drop lo b)"

subsection \<open>Stride-2 numpy slices\<close>

text \<open>\<open>arr[0::2]\<close>: every second element, starting with the first.\<close>

fun step2 :: "'a list \<Rightarrow> 'a list" where
  "step2 [] = []"
| "step2 [x] = [x]"
| "step2 (x # y # xs) = x # step2 xs"

text \<open>
  Writing the elements of \<open>src\<close> to the positions \<open>0, 2, 4, ...\<close> of \<open>dest\<close>, once the
  shapes agree.
\<close>

fun set_step2 :: "'a list \<Rightarrow> 'a list \<Rightarrow> 'a list" where
  "set_step2 (d # d' # ds) (s # ss) = s # d' # set_step2 ds ss"
| "set_step2 [d] (s # ss) = [s]"
| "set_step2 ds ss = ds"

text \<open>
  \<open>dest[start::2] = src\<close> for one-dimensional arrays. numpy accepts the assignment when
  \<open>src\<close> has as many elements as the slice, or exactly one element (which is then
  broadcast to every position of the slice); any other shape raises \<open>ValueError\<close>.
\<close>

definition np_assign_step2 :: "nat \<Rightarrow> 'a list \<Rightarrow> 'a list \<Rightarrow> error + 'a list" where
  "np_assign_step2 start dest src =
     (let n = length (step2 (drop start dest)) in
      if length src = n
      then Inr (take start dest @ set_step2 (drop start dest) src)
      else if length src = 1
      then Inr (take start dest @ set_step2 (drop start dest) (replicate n (hd src)))
      else Inl ValueError)"

text \<open>
  \<open>np.empty(n, dtype=np.uint8)\<close>: an array of \<open>n\<close> bytes of unspecified content. The
  model fills it with zeros; both callers overwrite every position before reading.
\<close>

definition np_empty :: "nat \<Rightarrow> bytes" where
  "np_empty n = replicate n 0"

subsection \<open>\<open>struct.pack\<close> and \<open>struct.unpack\<close> with format \<open><II\<close>\<close>

text \<open>One unsigned 32-bit field, least significant byte first.\<close>

definition u32_le :: "nat \<Rightarrow> bytes" where
  "u32_le n = [of_nat n, of_nat (n div 256), of_nat (n div 65536), of_nat (n div 16777216)]"

definition le_u32 :: "bytes \<Rightarrow> nat" where
  "le_u32 bs = foldr (\<lambda>b acc. unat b + 256 * acc) bs 0"

text \<open>\<open>struct.pack('<II', a, b)\<close> raises \<open>struct.error\<close> unless both arguments are below \<open>2^32\<close>.\<close>

definition pack_II :: "nat \<Rightarrow> nat \<Rightarrow> error + bytes" where
  "pack_II a b =
     (if a < 4294967296 \<and> b < 4294967296 then Inr (u32_le a @ u32_le b)
      else Inl StructError)"

text \<open>\<open>struct.unpack('<II', header)\<close> raises \<open>struct.error\<close> unless the buffer has 8 bytes.\<close>

definition unpack_II :: "bytes \<Rightarrow> error + nat \<times> nat" where
  "unpack_II header =
     (if length header = 8 then Inr (le_u32 (take 4 header), le_u32 (drop 4 header))
      else Inl StructError)"

section \<open>compressor.py\<close>

subsection \<open>The byte-plane transform inside \<open>compress_file\<close>\<close>

text \<open>
  Lines 28 to 43 of \<open>compress_file\<close>: an odd-length chunk keeps its last byte apart, the
  rest is separated into the bytes at even and at odd positions.
\<close>

definition byte_split :: "bytes \<Rightarrow> bytes" where
  "byte_split chunk =
     (let original_len = length chunk;
          data_even = (if original_len mod 2 \<noteq> 0 then butlast chunk else chunk);
          last_byte = (if original_len mod 2 \<noteq> 0 then last1 chunk else []);
          bytes_even = step2 data_even;
          bytes_odd = step2 (drop 1 data_even)
      in bytes_even @ bytes_odd @ last_byte)"

subsection \<open>The inverse transform inside \<open>decompress_file\<close>\<close>

text \<open>
  Lines 85 to 103 of \<open>decompress_file\<close>. Both slice assignments come before the first
  write, so a \<open>ValueError\<close> leaves nothing of the block in the output.
\<close>

definition byte_unsplit :: "nat \<Rightarrow> bytes \<Rightarrow> error + bytes" where
  "byte_unsplit original_len transformed_data =
     (let split_len = original_len div 2;
          bytes_even = slice 0 split_len transformed_data;
          bytes_odd = slice split_len (split_len * 2) transformed_data
      in case np_assign_step2 0 (np_empty (split_len * 2)) bytes_even of
           Inl e \<Rightarrow> Inl e
         | Inr r0 \<Rightarrow>
             (case np_assign_step2 1 r0 bytes_odd of
                Inl e \<Rightarrow> Inl e
              | Inr reconstructed \<Rightarrow>
                  Inr (reconstructed @
                    (if original_len mod 2 \<noteq> 0 then last1 transformed_data else []))))"

subsection \<open>\<open>compress_file\<close>\<close>

text \<open>
  The state of the encode loop: the output file and the two running totals. The backend
  compressor \<open>cctx\<close> (a \<open>ZstdCompressor\<close> built for one level) is a parameter.
\<close>

record cstate =
  f_out :: bytes
  total_original :: nat
  total_compressed :: nat

text \<open>
  The \<open>while True\<close> loop of \<open>compress_file\<close>. It returns the final state and the
  exception that ended it, if any; the bytes already written stay in the file.
\<close>

function compress_loop :: "(bytes \<Rightarrow> bytes) \<Rightarrow> int \<Rightarrow> bytes \<Rightarrow> cstate \<Rightarrow> cstate \<times> error option" where
  "compress_loop cctx chunk_size f_in st =
     (case file_read chunk_size f_in of
        Inl e \<Rightarrow> (st, Some e)
      | Inr r \<Rightarrow>
          let chunk = fst r; f_in' = snd r
          in if chunk = [] then (st, None)
             else
               let original_len = length chunk;
                   transformed_data = byte_split chunk;
                   compressed_data = cctx transformed_data;
                   compressed_len = length compressed_data;
                   st' = st\<lparr>total_original := total_original st + original_len,
                            total_compressed := total_compressed st + compressed_len\<rparr>
               in case pack_II original_len compressed_len of
                    Inl e \<Rightarrow> (st', Some e)
                  | Inr header \<Rightarrow>
                      compress_loop cctx chunk_size f_in'
                        (st'\<lparr>f_out := f_out st' @ header @ compressed_data\<rparr>))"
  by pat_completeness auto
termination
  by (relation "measure (\<lambda>(cctx, chunk_size, f_in, st). length f_in)")
     (auto simp: file_read_def split: if_splits)

declare compress_loop.simps [simp del]

text \<open>
  \<open>compress_file(input_path, output_path, chunk_size, level)\<close>, with the content of the
  input file in place of its path and the backend \<open>compress\<close> (level first) as a
  parameter. After the loop the summary divides by \<open>total_compressed\<close>.
\<close>

definition compress_file :: "(int \<Rightarrow> bytes \<Rightarrow> bytes) \<Rightarrow> bytes \<Rightarrow> int \<Rightarrow> int \<Rightarrow> cstate \<times> error option" where
  "compress_file compress input chunk_size level =
     (let r = compress_loop (compress level) chunk_size input
                \<lparr>f_out = [], total_original = 0, total_compressed = 0\<rparr>
      in case snd r of
           Some e \<Rightarrow> r
         | None \<Rightarrow>
             if total_compressed (fst r) = 0 then (fst r, Some ZeroDivisionError)
             else r)"

subsection \<open>\<open>decompress_file\<close>\<close>

text \<open>
  The \<open>while True\<close> loop of \<open>decompress_file\<close>: the input still to read, the output
  written so far. The backend \<open>dctx\<close> returns \<open>None\<close> where it raises. Both reads go
  through \<open>file_read\<close> like any other, although their sizes, 8 and a 32-bit number,
  are never among those it refuses.
\<close>

function decompress_loop :: "(bytes \<Rightarrow> bytes option) \<Rightarrow> bytes \<Rightarrow> bytes \<Rightarrow> bytes \<times> error option" where
  "decompress_loop dctx f_in out =
     (case file_read 8 f_in of
        Inl e \<Rightarrow> (out, Some e)
      | Inr r8 \<Rightarrow>
          let header = fst r8; f_in1 = snd r8
          in if header = [] then (out, None)
             else
               case unpack_II header of
                 Inl e \<Rightarrow> (out, Some e)
               | Inr lens \<Rightarrow>
                   let original_len = fst lens; compressed_len = snd lens
                   in case file_read (int compressed_len) f_in1 of
                        Inl e \<Rightarrow> (out, Some e)
                      | Inr rp \<Rightarrow>
                          let compressed_data = fst rp; f_in2 = snd rp
                          in case dctx compressed_data of
                               None \<Rightarrow> (out, Some ZstdError)
                             | Some transformed_data \<Rightarrow>
                                 (case byte_unsplit original_len transformed_data of
                                    Inl e \<Rightarrow> (out, Some e)
                                  | Inr chunk \<Rightarrow>
                                      decompress_loop dctx f_in2 (out @ chunk)))"
  by pat_completeness auto
termination
  by (relation "measure (\<lambda>(dctx, f_in, out). length f_in)")
     (auto simp: file_read_def split: if_splits)

declare decompress_loop.simps [simp del]

definition decompress_file :: "(bytes \<Rightarrow> bytes option) \<Rightarrow> bytes \<Rightarrow> bytes \<times> error option" where
  "decompress_file dctx input = decompress_loop dctx input []"

section \<open>benchmark.py\<close>

text \<open>
  The benchmark's own transform pair, \<open>split_bytes\<close> (lines 112 to 120) and
  \<open>unsplit_bytes\<close> (lines 122 to 130). \<open>split_bytes\<close> drops the last byte of a buffer of
  odd length; \<open>unsplit_bytes\<close> fills an array of the length of its argument from the two
  halves of the argument.
\<close>

definition split_bytes :: "bytes \<Rightarrow> bytes" where
  "split_bytes data =
     (let data' = (if length data mod 2 \<noteq> 0 then butlast data else data);
          bytes_even = step2 data';
          bytes_odd = step2 (drop 1 data')
      in bytes_even @ bytes_odd)"

definition unsplit_bytes :: "bytes \<Rightarrow> error + bytes" where
  "unsplit_bytes data =
     (let mid = length data div 2;
          bytes_even = take mid data;
          bytes_odd = drop mid data
      in case np_assign_step2 0 (np_empty (length data)) bytes_even of
           Inl e \<Rightarrow> Inl e
         | Inr r0 \<Rightarrow> np_assign_step2 1 r0 bytes_odd)"

section \<open>Reference definitions\<close>

text \<open>
  The forward transform in the words of the specification: with \<open>n\<close> the length of the
  chunk and \<open>m = n - n mod 2\<close>, the bytes at the even positions of the first \<open>m\<close> bytes,
  then the bytes at their odd positions, then \<open>chunk[n-1]\<close> if \<open>n\<close> is odd.
\<close>

definition split_spec :: "bytes \<Rightarrow> bytes" where
  "split_spec chunk =
     (let n = length chunk; m = n - n mod 2
      in map (\<lambda>i. chunk ! (2 * i)) [0..<m div 2] @
         map (\<lambda>i. chunk ! (2 * i + 1)) [0..<m div 2] @
         (if n mod 2 = 1 then [chunk ! (n - 1)] else []))"

text \<open>
  The chunks \<open>compress_file\<close> reads from its input, in order: the results of
  \<open>f_in.read(chunk_size)\<close> up to the first empty one; none when the read raises.
\<close>

function chunks :: "int \<Rightarrow> bytes \<Rightarrow> bytes list" where
  "chunks chunk_size f_in =
     (case file_read chunk_size f_in of
        Inl e \<Rightarrow> []
      | Inr r \<Rightarrow> if fst r = [] then [] else fst r # chunks chunk_size (snd r))"
  by pat_completeness auto
termination
  by (relation "measure (\<lambda>(chunk_size, f_in). length f_in)")
     (auto simp: file_read_def split: if_splits)

declare chunks.simps [simp del]

text \<open>
  The Block of the container format, in the words of the specification:
  \<open>original_len\<close> as u32 little-endian, \<open>compressed_len\<close> as u32 little-endian, then the
  payload, which is the compressor's output on the planar buffer of the chunk.
\<close>

definition encode_block :: "(bytes \<Rightarrow> bytes) \<Rightarrow> bytes \<Rightarrow> bytes" where
  "encode_block cctx chunk =
     u32_le (length chunk) @ u32_le (length (cctx (byte_split chunk))) @ cctx (byte_split chunk)"

text \<open>A chunk whose two lengths both fit the 32-bit fields of the header.\<close>

definition fits :: "(bytes \<Rightarrow> bytes) \<Rightarrow> bytes \<Rightarrow> bool" where
  "fits cctx chunk \<longleftrightarrow>
     length chunk < 4294967296 \<and> length (cctx (byte_split chunk)) < 4294967296"

section \<open>Example backends\<close>

text \<open>
  Backends for the concrete instances below. The first stores the data as it is, and
  its decompressor accepts every buffer; it satisfies the round-trip contract of the
  compressor capability. The second answers every input with \<open>2^32\<close> zero bytes. The
  third writes every data byte behind a byte 1 and closes the frame with a byte 0; its
  decompressor accepts complete frames only, so it round-trips and, like zstd, rejects
  every frame that was cut short.
\<close>

definition id_compress :: "int \<Rightarrow> bytes \<Rightarrow> bytes" where
  "id_compress level b = b"

definition id_dctx :: "bytes \<Rightarrow> bytes option" where
  "id_dctx b = Some b"

definition bloat_compress :: "int \<Rightarrow> bytes \<Rightarrow> bytes" where
  "bloat_compress level b = replicate 4294967296 0"




section \<open>Stride-2 slices and the transform\<close>

lemma step2_Cons: "step2 (x # xs) = x # step2 (drop 1 xs)"
  by (cases xs) auto

lemma length_step2: "length (step2 xs) = (length xs + 1) div 2"
  by (induction xs rule: step2.induct) auto

lemma length_set_step2: "length (set_step2 ds ss) = length ds"
  by (induction ds ss rule: set_step2.induct) auto

lemma set_step2_Cons:
  "set_step2 (d # ds) (s # ss) = s # (take 1 ds @ set_step2 (drop 1 ds) ss)"
  by (cases ds) auto

lemma scatter_gather:
  "length dest = length xs \<Longrightarrow> even (length xs) \<Longrightarrow>
   take 1 (set_step2 dest (step2 xs)) @ set_step2 (drop 1 (set_step2 dest (step2 xs))) (step2 (drop 1 xs)) = xs"
proof (induction xs arbitrary: dest rule: step2.induct)
  case 1 then show ?case by simp
next
  case (2 x) then show ?case by simp
next
  case (3 x y xs)
  then obtain d d' ds where dest: "dest = d # d' # ds" "length ds = length xs"
    by (cases dest; cases "tl dest") auto
  have ev: "even (length xs)" using 3 by simp
  from "3.IH"[OF dest(2) ev] show ?case
    by (simp add: dest step2_Cons[of y] set_step2_Cons)
qed

lemma step2_nth: "i < length (step2 xs) \<Longrightarrow> step2 xs ! i = xs ! (2 * i)"
proof (induction xs arbitrary: i rule: step2.induct)
  case (3 x y xs)
  then show ?case by (cases i) auto
qed auto

lemma step2_map: "step2 xs = map (\<lambda>i. xs ! (2 * i)) [0..<(length xs + 1) div 2]"
  by (rule nth_equalityI) (simp_all add: length_step2 step2_nth)

lemma step2_drop1_map:
  "step2 (drop 1 xs) = map (\<lambda>i. xs ! (2 * i + 1)) [0..<length xs div 2]"
proof (rule nth_equalityI)
  show "length (step2 (drop 1 xs)) = length (map (\<lambda>i. xs ! (2 * i + 1)) [0..<length xs div 2])"
    by (simp add: length_step2)
next
  fix i assume "i < length (step2 (drop 1 xs))"
  then have i: "i < length xs div 2" and j: "i < length (step2 (drop 1 xs))"
    by (simp_all add: length_step2)
  have "step2 (drop 1 xs) ! i = drop 1 xs ! (2 * i)" by (rule step2_nth[OF j])
  also have "\<dots> = xs ! (2 * i + 1)" using i by simp
  finally show "step2 (drop 1 xs) ! i = map (\<lambda>i. xs ! (2 * i + 1)) [0..<length xs div 2] ! i"
    using i by simp
qed

text \<open>Both stride-2 assignments of a buffer of even length, as the two functions make them.\<close>

lemma interleave_ok:
  assumes "even (length xs)"
  shows "np_assign_step2 0 (np_empty (length xs)) (step2 xs) = Inr (set_step2 (np_empty (length xs)) (step2 xs))"
    and "np_assign_step2 1 (set_step2 (np_empty (length xs)) (step2 xs)) (step2 (drop 1 xs)) = Inr xs"
proof -
  show "np_assign_step2 0 (np_empty (length xs)) (step2 xs) = Inr (set_step2 (np_empty (length xs)) (step2 xs))"
    by (simp add: np_assign_step2_def np_empty_def length_step2)
  have "length (step2 (drop 1 xs)) = length (step2 (drop 1 (set_step2 (np_empty (length xs)) (step2 xs))))"
    by (simp add: length_step2 length_set_step2 np_empty_def)
  moreover have "take 1 (set_step2 (np_empty (length xs)) (step2 xs)) @
      set_step2 (drop 1 (set_step2 (np_empty (length xs)) (step2 xs))) (step2 (drop 1 xs)) = xs"
    by (rule scatter_gather) (simp_all add: np_empty_def assms)
  ultimately show "np_assign_step2 1 (set_step2 (np_empty (length xs)) (step2 xs)) (step2 (drop 1 xs)) = Inr xs"
    by (simp add: np_assign_step2_def)
qed

lemma set_both_content_free:
  "length d2 = length d1 \<Longrightarrow> length s = length (step2 d1) \<Longrightarrow>
   length t = length (step2 (drop 1 d1)) \<Longrightarrow>
   take 1 (set_step2 d1 s) @ set_step2 (drop 1 (set_step2 d1 s)) t =
   take 1 (set_step2 d2 s) @ set_step2 (drop 1 (set_step2 d2 s)) t"
proof (induction d1 arbitrary: d2 s t rule: step2.induct)
  case 1
  then show ?case by simp
next
  case (2 x)
  then obtain x' s0 where "d2 = [x']" "s = [s0]" "t = []"
    by (cases d2; cases s) auto
  then show ?case by simp
next
  case (3 x y ds)
  from "3.prems" obtain x' y' ds' where d2: "d2 = x' # y' # ds'" "length ds' = length ds"
    by (cases d2; cases "tl d2") auto
  from "3.prems" obtain s0 ss where s: "s = s0 # ss" "length ss = length (step2 ds)"
    by (cases s) auto
  from "3.prems" obtain t0 ts where t: "t = t0 # ts" "length ts = length (step2 (drop 1 ds))"
    by (cases t) (auto simp: step2_Cons[of y])
  from "3.IH"[OF d2(2) s(2) t(2)] show ?case
    by (simp add: d2 s t set_step2_Cons)
qed

text \<open>
  The content \<open>np.empty\<close> leaves in the array does not reach the result: once both
  stride-2 assignments succeed, every position has been overwritten.
\<close>

lemma np_empty_content_free:
  assumes "length d2 = length d1"
    and "np_assign_step2 0 d1 ev = Inr a1" "np_assign_step2 1 a1 od = Inr b1"
    and "np_assign_step2 0 d2 ev = Inr a2" "np_assign_step2 1 a2 od = Inr b2"
  shows "b1 = b2"
proof -
  define s where "s = (if length ev = length (step2 d1) then ev
                       else replicate (length (step2 d1)) (hd ev))"
  define t where "t = (if length od = length (step2 (drop 1 d1)) then od
                       else replicate (length (step2 (drop 1 d1))) (hd od))"
  have l2: "length (step2 d2) = length (step2 d1)"
    "length (step2 (drop 1 d2)) = length (step2 (drop 1 d1))"
    using assms(1) by (simp_all add: length_step2)
  have a1: "a1 = set_step2 d1 s" and a2: "a2 = set_step2 d2 s"
    using assms(2,4) l2 by (auto simp: np_assign_step2_def s_def split: if_splits)
  have la: "length (step2 (drop 1 a1)) = length (step2 (drop 1 d1))"
    "length (step2 (drop 1 a2)) = length (step2 (drop 1 d1))"
    using assms(1) by (simp_all add: a1 a2 length_step2 length_set_step2)
  have b1: "b1 = take 1 a1 @ set_step2 (drop 1 a1) t"
    using assms(3) la by (auto simp: np_assign_step2_def t_def split: if_splits)
  have b2: "b2 = take 1 a2 @ set_step2 (drop 1 a2) t"
    using assms(5) la by (auto simp: np_assign_step2_def t_def split: if_splits)
  have "length s = length (step2 d1)" "length t = length (step2 (drop 1 d1))"
    by (simp_all add: s_def t_def)
  then show ?thesis
    unfolding b1 b2 a1 a2 by (rule set_both_content_free[OF assms(1)])
qed

lemma length_halves:
  "even (length xs) \<Longrightarrow> length (step2 xs) = length xs div 2"
  "even (length xs) \<Longrightarrow> length (step2 (drop (Suc 0) xs)) = length xs div 2"
  by (auto simp: length_step2 elim!: evenE) 

lemma byte_unsplit_planar:
  assumes ev: "even (length d)" and l: "length l \<le> 1" and n: "n = length d + length l"
  shows "byte_unsplit n (step2 d @ step2 (drop 1 d) @ l) = Inr (d @ l)"
proof -
  have k: "n div 2 = length d div 2" "n div 2 * 2 = length d"
    using ev l n by (auto elim!: evenE)
  have e: "slice 0 (n div 2) (step2 d @ step2 (drop 1 d) @ l) = step2 d"
    by (simp add: slice_def k length_halves[OF ev])
  have o: "slice (n div 2) (n div 2 * 2) (step2 d @ step2 (drop 1 d) @ l) = step2 (drop 1 d)"
  proof -
    have "length d - length d div 2 = length d div 2" using ev by (auto elim!: evenE)
    then show ?thesis by (simp add: slice_def k length_halves[OF ev])
  qed
  have odd: "n mod 2 \<noteq> 0 \<longleftrightarrow> l \<noteq> []"
    using ev l n by (cases l) (auto simp: mod_Suc)
  have last: "l \<noteq> [] \<Longrightarrow> last1 (step2 d @ step2 (drop 1 d) @ l) = l"
    using l by (cases l) (auto simp: last1_def)
  have a1: "np_assign_step2 0 (np_empty (n div 2 * 2)) (step2 d) =
      Inr (set_step2 (np_empty (length d)) (step2 d))"
    by (simp only: k(2) interleave_ok(1)[OF ev])
  have a2: "np_assign_step2 1 (set_step2 (np_empty (length d)) (step2 d)) (step2 (drop 1 d)) = Inr d"
    by (rule interleave_ok(2)[OF ev])
  have "byte_unsplit n (step2 d @ step2 (drop 1 d) @ l) =
      Inr (d @ (if n mod 2 \<noteq> 0 then last1 (step2 d @ step2 (drop 1 d) @ l) else []))"
    by (simp only: byte_unsplit_def Let_def e o a1 a2 sum.case)
  also have "(if n mod 2 \<noteq> 0 then last1 (step2 d @ step2 (drop 1 d) @ l) else []) = l"
    using odd last by (cases "l = []") simp_all
  finally show ?thesis .
qed

lemma byte_split_shape:
  "\<exists>d l. even (length d) \<and> length l \<le> 1 \<and> chunk = d @ l \<and> byte_split chunk = step2 d @ step2 (drop 1 d) @ l
     \<and> (chunk \<noteq> [] \<longrightarrow> d = take (length chunk - length chunk mod 2) chunk)"
proof (cases "even (length chunk)")
  case True
  then show ?thesis
    by (rule_tac x = chunk in exI, rule_tac x = "[]" in exI) (auto simp: byte_split_def Let_def)
next
  case False
  then have ne: "chunk \<noteq> []" by auto
  have "even (length (butlast chunk))" using False ne by simp
  moreover have "butlast chunk = take (length chunk - length chunk mod 2) chunk"
    using False by (simp add: butlast_conv_take odd_iff_mod_2_eq_one)
  moreover have "chunk = butlast chunk @ [last chunk]" using ne by simp
  moreover have "byte_split chunk =
      step2 (butlast chunk) @ step2 (drop 1 (butlast chunk)) @ [last chunk]"
    using False ne by (simp add: byte_split_def Let_def last1_def odd_iff_mod_2_eq_one)
  ultimately show ?thesis
    by (rule_tac x = "butlast chunk" in exI, rule_tac x = "[last chunk]" in exI) simp
qed

lemma byte_split_roundtrip: "byte_unsplit (length buf) (byte_split buf) = Inr buf"
proof -
  obtain d l where "even (length d)" "length l \<le> 1" "buf = d @ l"
    "byte_split buf = step2 d @ step2 (drop 1 d) @ l"
    using byte_split_shape[of buf] by blast
  then show ?thesis using byte_unsplit_planar[of d l "length buf"] by simp
qed

lemma length_byte_split: "length (byte_split buf) = length buf"
proof -
  obtain d l where "even (length d)" "length l \<le> 1" "buf = d @ l"
    "byte_split buf = step2 d @ step2 (drop 1 d) @ l"
    using byte_split_shape[of buf] by blast
  then show ?thesis by (auto simp: length_step2 elim!: evenE)
qed

lemma np_assign_step2_Inl_iff:
  "np_assign_step2 start dest src = Inl e \<longleftrightarrow>
     e = ValueError \<and> length src \<noteq> length (step2 (drop start dest)) \<and> length src \<noteq> 1"
  by (auto simp: np_assign_step2_def Let_def)

lemma np_assign_step2_length:
  "np_assign_step2 start dest src = Inr r \<Longrightarrow> length r = length dest"
  by (auto simp: np_assign_step2_def Let_def length_set_step2 split: if_splits)

lemma byte_unsplit_Inl_iff:
  "byte_unsplit original_len td = Inl e \<longleftrightarrow>
     e = ValueError \<and> length td < 2 * (original_len div 2) \<and> length td \<noteq> original_len div 2 + 1"
proof -
  define k where "k = original_len div 2"
  have s1: "length (step2 (drop 0 (np_empty (k * 2)))) = k"
    by (simp add: length_step2 np_empty_def)
  have s2: "length (step2 (drop 1 r0)) = k" if "length r0 = k * 2" for r0 :: bytes
    using that by (simp add: length_step2)
  have le: "length (slice 0 k td) = min k (length td)"
    by (simp add: slice_def min.commute)
  have lo: "length (slice k (k * 2) td) = min k (length td - k)"
    by (simp add: slice_def min.commute)
  show ?thesis
  proof (cases "np_assign_step2 0 (np_empty (k * 2)) (slice 0 k td)")
    case (Inl e')
    then have "e' = ValueError" "length td < k" "length td \<noteq> 1"
      using le s1 by (auto simp: np_assign_step2_Inl_iff)
    then show ?thesis using Inl
      by (auto simp: byte_unsplit_def Let_def k_def[symmetric])
  next
    case (Inr r0)
    then have lr: "length r0 = k * 2"
      using np_assign_step2_length[OF Inr] by (simp add: np_empty_def)
    have ok1: "k \<le> length td \<or> length td = 1"
    proof (rule ccontr)
      assume "\<not> ?thesis"
      then have "np_assign_step2 0 (np_empty (k * 2)) (slice 0 k td) = Inl ValueError"
        using le s1 by (auto simp: np_assign_step2_Inl_iff)
      with Inr show False by simp
    qed
    show ?thesis
    proof (cases "np_assign_step2 1 r0 (slice k (k * 2) td)")
      case (Inl e')
      then have "e' = ValueError" "min k (length td - k) \<noteq> k" "min k (length td - k) \<noteq> 1"
        using lo s2[OF lr] by (auto simp: np_assign_step2_Inl_iff)
      then show ?thesis using Inl Inr
        by (auto simp: byte_unsplit_def Let_def k_def[symmetric])
    next
      case r: (Inr r1)
      have "\<not> (min k (length td - k) \<noteq> k \<and> min k (length td - k) \<noteq> 1)"
      proof 
        assume "min k (length td - k) \<noteq> k \<and> min k (length td - k) \<noteq> 1"
        then have "np_assign_step2 1 r0 (slice k (k * 2) td) = Inl ValueError"
          using lo s2[OF lr] by (auto simp: np_assign_step2_Inl_iff)
        with r show False by simp
      qed
      then have "\<not> (length td < 2 * k \<and> length td \<noteq> k + 1)" 
        using ok1 by (auto simp: min_def split: if_splits)
      then show ?thesis using r Inr
        by (auto simp: byte_unsplit_def Let_def k_def[symmetric])
    qed
  qed
qed

lemma byte_unsplit_length:
  assumes "byte_unsplit original_len td = Inr out"
  shows "length out = (if original_len mod 2 \<noteq> 0 \<and> td = [] then original_len - 1 else original_len)"
proof -
  define k where "k = original_len div 2"
  from assms obtain r0 r1 where
    r0: "np_assign_step2 0 (np_empty (k * 2)) (slice 0 k td) = Inr r0" and
    r1: "np_assign_step2 1 r0 (slice k (k * 2) td) = Inr r1" and
    out: "out = r1 @ (if original_len mod 2 \<noteq> 0 then last1 td else [])"
    by (auto simp: byte_unsplit_def Let_def k_def[symmetric] split: sum.splits)
  have "length r1 = k * 2"
    using np_assign_step2_length[OF r1] np_assign_step2_length[OF r0] by (simp add: np_empty_def)
  then show ?thesis
    using out by (auto simp: last1_def k_def) presburger+
qed

lemma byte_split_spec: "byte_split chunk = split_spec chunk"
proof (cases "even (length chunk)")
  case True
  then have m: "length chunk mod 2 = 0" "(length chunk + 1) div 2 = length chunk div 2"
    by (auto elim!: evenE)
  have "byte_split chunk = step2 chunk @ step2 (drop 1 chunk) @ []"
    by (simp only: byte_split_def Let_def m) simp
  also have "\<dots> = split_spec chunk"
    by (simp only: split_spec_def Let_def m step2_map[of chunk] step2_drop1_map[of chunk]) simp
  finally show ?thesis .
next
  case False
  then have ne: "chunk \<noteq> []" and m: "length chunk mod 2 = 1"
    by (auto simp: odd_iff_mod_2_eq_one)
  let ?d = "butlast chunk"
  have ld: "length ?d = length chunk - 1" by simp
  have h: "(length ?d + 1) div 2 = (length chunk - 1) div 2" "length ?d div 2 = (length chunk - 1) div 2"
    using False by (auto elim!: oddE)
  have e: "step2 ?d = map (\<lambda>i. chunk ! (2 * i)) [0..<(length chunk - 1) div 2]"
    unfolding step2_map[of ?d] h using False
    by (auto simp: nth_butlast elim!: oddE)
  have o: "step2 (drop 1 ?d) = map (\<lambda>i. chunk ! (2 * i + 1)) [0..<(length chunk - 1) div 2]"
    unfolding step2_drop1_map[of ?d] h using False
    by (auto simp: nth_butlast elim!: oddE)
  have l: "last1 chunk = [chunk ! (length chunk - 1)]"
    using ne by (simp add: last1_def last_conv_nth)
  have "byte_split chunk = step2 ?d @ step2 (drop 1 ?d) @ last1 chunk"
    by (simp add: byte_split_def Let_def m)
  also have "\<dots> = map (\<lambda>i. chunk ! (2 * i)) [0..<(length chunk - 1) div 2] @
      map (\<lambda>i. chunk ! (2 * i + 1)) [0..<(length chunk - 1) div 2] @ [chunk ! (length chunk - 1)]"
    by (simp only: e o l)
  also have "\<dots> = split_spec chunk"
    by (simp add: split_spec_def Let_def m)
  finally show ?thesis .
qed

lemma unsplit_split_bytes:
  "unsplit_bytes (split_bytes d) = Inr (if even (length d) then d else butlast d)"
proof -
  define d' where "d' = (if length d mod 2 \<noteq> 0 then butlast d else d)"
  have ev: "even (length d')" by (auto simp: d'_def)
  have s: "split_bytes d = step2 d' @ step2 (drop 1 d')"
    by (simp add: split_bytes_def Let_def d'_def)
  have len: "length (step2 d' @ step2 (drop 1 d')) = length d'"
    using ev by (auto simp: length_step2 elim!: evenE)
  have hl: "length (step2 d') = length d' div 2"
    using ev by (auto simp: length_step2 elim!: evenE)
  have t: "take (length d' div 2) (step2 d' @ step2 (drop 1 d')) = step2 d'"
    "drop (length d' div 2) (step2 d' @ step2 (drop 1 d')) = step2 (drop 1 d')"
    by (simp_all add: hl)
  have "unsplit_bytes (step2 d' @ step2 (drop 1 d')) = Inr d'"
    by (simp only: unsplit_bytes_def Let_def len t interleave_ok[OF ev] sum.case)
  then show ?thesis by (simp add: s) (auto simp: d'_def)
qed

section \<open>Headers and single blocks\<close>

lemma file_read_Inl_iff:
  "file_read sz f = Inl e \<longleftrightarrow>
     (sz < - 1 \<and> e = ValueError) \<or> (9223372036854775775 \<le> sz \<and> e = OverflowError)"
  by (auto simp: file_read_def)

lemma file_read_Inr:
  assumes "file_read sz f = Inr r"
  shows "- 1 \<le> sz" "sz < 9223372036854775775" "fst r @ snd r = f"
    "fst r = [] \<longleftrightarrow> f = [] \<or> sz = 0"
    "0 \<le> sz \<Longrightarrow> int (length (fst r)) \<le> sz"
  using assms by (auto simp: file_read_def split: if_splits)

lemma file_read_nat:
  "n < 4294967296 \<Longrightarrow> file_read (int n) f = Inr (take n f, drop n f)"
  by (simp add: file_read_def)

lemma file_read_append:
  "length p < 4294967296 \<Longrightarrow> file_read (int (length p)) (p @ rest) = Inr (p, rest)"
  by (simp add: file_read_nat)

lemma file_read_8: "file_read 8 f = Inr (take 8 f, drop 8 f)"
  using file_read_nat[of 8 f] by simp

lemma length_u32_le: "length (u32_le n) = 4"
  by (simp add: u32_le_def)

lemma le_u32_bytes:
  "le_u32 [b0, b1, b2, b3] = unat b0 + 256 * (unat b1 + 256 * (unat b2 + 256 * unat b3))"
  by (simp add: le_u32_def)

lemma unat_byte_of_nat: "unat (of_nat n :: byte) = n mod 256"
  by (simp add: unat_of_nat)

lemma le_u32_u32_le:
  assumes "n < 4294967296"
  shows "le_u32 (u32_le n) = n"
proof -
  define a where "a = n div 256"
  define b where "b = a div 256"
  define c where "c = b div 256"
  have b: "n div 65536 = b"
    using div_mult2_eq[of n 256 256] by (simp add: a_def b_def)
  have c: "n div 16777216 = c"
    using div_mult2_eq[of n 65536 256] by (simp add: b c_def)
  have "c < 256" using assms unfolding c[symmetric] by simp
  then have c': "c mod 256 = c" by simp
  have "le_u32 (u32_le n) = n mod 256 + 256 * (a mod 256 + 256 * (b mod 256 + 256 * (c mod 256)))"
    unfolding u32_le_def le_u32_bytes unat_byte_of_nat b c a_def[symmetric] ..
  also have "\<dots> = n"
  proof -
    have h1: "b mod 256 + 256 * c = b" by (simp add: c_def)
    have h2: "a mod 256 + 256 * b = a" by (simp add: b_def)
    have h3: "n mod 256 + 256 * a = n" by (simp add: a_def)
    show ?thesis by (simp only: c' h1 h2 h3)
  qed
  finally show ?thesis .
qed

lemma u32_le_bytes:
  "map unat (u32_le n) = [n mod 256, n div 256 mod 256, n div 65536 mod 256, n div 16777216 mod 256]"
  by (simp add: u32_le_def unat_byte_of_nat)

lemma pack_unpack:
  assumes "pack_II a b = Inr h"
  shows "length h = 8 \<and> unpack_II h = Inr (a, b)"
proof -
  from assms have ab: "a < 4294967296" "b < 4294967296" and h: "h = u32_le a @ u32_le b"
    by (auto simp: pack_II_def split: if_splits)
  show ?thesis
    by (simp add: h unpack_II_def length_u32_le le_u32_u32_le ab)
qed

lemma le_u32_bound:
  assumes "length bs = 4"
  shows "le_u32 bs < 4294967296"
proof -
  from assms obtain b0 b1 b2 b3 where bs: "bs = [b0, b1, b2, b3]"
    by (cases bs; cases "tl bs"; cases "tl (tl bs)"; cases "tl (tl (tl bs))") auto
  have lt: "unat b < 256" for b :: byte
    using unsigned_less[of b, where ?'a = nat] by simp
  define x where "x = unat b2 + 256 * unat b3"
  define y where "y = unat b1 + 256 * x"
  have "x < 65536" using lt[of b2] lt[of b3] unfolding x_def by linarith
  then have "y < 16777216" using lt[of b1] unfolding y_def by linarith
  then have "unat b0 + 256 * y < 4294967296" using lt[of b0] by linarith
  then show ?thesis
    by (simp only: bs le_u32_bytes x_def y_def)
qed

lemma file_read_8_block:
  "file_read 8 (u32_le a @ u32_le b @ rest) = Inr (u32_le a @ u32_le b, rest)"
  by (simp add: file_read_8 length_u32_le)

lemma decode_block:
  assumes rt: "\<And>b. dctx (cctx b) = Some b" and f: "fits cctx c"
  shows "decompress_loop dctx (encode_block cctx c @ rest) out = decompress_loop dctx rest (out @ c)"
proof -
  let ?p = "cctx (byte_split c)"
  have u: "unpack_II (u32_le (length c) @ u32_le (length ?p)) = Inr (length c, length ?p)"
    using f by (simp add: unpack_II_def length_u32_le le_u32_u32_le fits_def)
  have ne: "u32_le (length c) @ u32_le (length ?p) \<noteq> []"
    by (simp add: u32_le_def)
  have e: "encode_block cctx c @ rest = u32_le (length c) @ u32_le (length ?p) @ ?p @ rest"
    by (simp add: encode_block_def)
  have r: "file_read (int (length ?p)) (?p @ rest) = Inr (?p, rest)"
    using f by (simp add: file_read_append fits_def)
  show ?thesis
    unfolding e
    by (subst decompress_loop.simps)
       (simp only: file_read_8_block Let_def fst_conv snd_conv ne if_False u sum.case
          r rt option.case byte_split_roundtrip)
qed

section \<open>The two loops\<close>

lemma pack_II_fits:
  "pack_II (length c) (length (cctx (byte_split c))) =
     (if fits cctx c then Inr (u32_le (length c) @ u32_le (length (cctx (byte_split c))))
      else Inl StructError)"
  by (simp add: pack_II_def fits_def)

lemma compress_loop_read_error:
  "file_read chunk_size f_in = Inl e \<Longrightarrow> compress_loop cctx chunk_size f_in st = (st, Some e)"
  by (subst compress_loop.simps) simp

lemma chunks_read_error: "file_read chunk_size f_in = Inl e \<Longrightarrow> chunks chunk_size f_in = []"
  by (subst chunks.simps) simp

lemma compress_loop_result:
  "f_out (fst (compress_loop cctx chunk_size f_in st)) =
     f_out st @ concat (map (encode_block cctx) (takeWhile (fits cctx) (chunks chunk_size f_in))) \<and>
   snd (compress_loop cctx chunk_size f_in st) =
     (if chunk_size < - 1 then Some ValueError
      else if 9223372036854775775 \<le> chunk_size then Some OverflowError
      else if list_all (fits cctx) (chunks chunk_size f_in) then None
      else Some StructError)"
proof (induction cctx chunk_size f_in st rule: compress_loop.induct)
  case (1 cctx chunk_size f_in st)
  show ?case
  proof (cases "file_read chunk_size f_in")
    case (Inl e)
    then have "(chunk_size < - 1 \<and> e = ValueError) \<or>
        (\<not> chunk_size < - 1 \<and> 9223372036854775775 \<le> chunk_size \<and> e = OverflowError)"
      by (auto simp: file_read_Inl_iff)
    then show ?thesis
      by (auto simp: compress_loop_read_error[OF Inl] chunks_read_error[OF Inl])
  next
    case (Inr r)
    let ?chunk = "fst r"
    let ?rest = "snd r"
    have range: "\<not> chunk_size < - 1" "\<not> 9223372036854775775 \<le> chunk_size"
      using file_read_Inr(1,2)[OF Inr] by simp_all
    show ?thesis
    proof (cases "?chunk = []")
      case True
      have cl: "compress_loop cctx chunk_size f_in st = (st, None)"
        using True by (subst compress_loop.simps) (simp add: Inr Let_def)
      have ch: "chunks chunk_size f_in = []"
        using True by (subst chunks.simps) (simp add: Inr)
      show ?thesis by (simp add: cl ch range)
    next
      case ne: False
      have ch: "chunks chunk_size f_in = ?chunk # chunks chunk_size ?rest"
        using ne by (subst chunks.simps) (simp add: Inr)
      show ?thesis
      proof (cases "fits cctx ?chunk")
        case False
        have cl: "f_out (fst (compress_loop cctx chunk_size f_in st)) = f_out st"
          "snd (compress_loop cctx chunk_size f_in st) = Some StructError"
          using ne False by (subst compress_loop.simps, simp add: Inr Let_def pack_II_fits)+
        show ?thesis using False by (simp add: cl ch range)
      next
        case True
        let ?st = "st\<lparr>total_original := total_original st + length ?chunk,
                      total_compressed := total_compressed st + length (cctx (byte_split ?chunk)),
                      f_out := f_out st @ u32_le (length ?chunk) @
                        u32_le (length (cctx (byte_split ?chunk))) @ cctx (byte_split ?chunk)\<rparr>"
        have step: "compress_loop cctx chunk_size f_in st = compress_loop cctx chunk_size ?rest ?st"
          using ne True by (subst compress_loop.simps) (simp add: Inr Let_def pack_II_fits)
        have p: "pack_II (length ?chunk) (length (cctx (byte_split ?chunk))) =
            Inr (u32_le (length ?chunk) @ u32_le (length (cctx (byte_split ?chunk))))"
          using True by (simp add: pack_II_fits)
        have ih: "f_out (fst (compress_loop cctx chunk_size ?rest ?st)) =
            f_out ?st @ concat (map (encode_block cctx) (takeWhile (fits cctx) (chunks chunk_size ?rest))) \<and>
          snd (compress_loop cctx chunk_size ?rest ?st) =
            (if chunk_size < - 1 then Some ValueError
             else if 9223372036854775775 \<le> chunk_size then Some OverflowError
             else if list_all (fits cctx) (chunks chunk_size ?rest) then None
             else Some StructError)"
          using "1.IH"[OF Inr refl refl ne refl refl refl refl refl p] by simp
        have enc: "encode_block cctx ?chunk = u32_le (length ?chunk) @
            u32_le (length (cctx (byte_split ?chunk))) @ cctx (byte_split ?chunk)"
          by (simp add: encode_block_def)
        show ?thesis
          unfolding step ch using ih True by (simp add: enc)
      qed
    qed
  qed
qed

lemma decode_blocks:
  assumes rt: "\<And>b. dctx (cctx b) = Some b"
  shows "list_all (fits cctx) cs \<Longrightarrow>
    decompress_loop dctx (concat (map (encode_block cctx) cs) @ rest) out =
    decompress_loop dctx rest (out @ concat cs)"
proof (induction cs arbitrary: out)
  case Nil
  then show ?case by simp
next
  case (Cons c cs)
  then have f: "fits cctx c" and fs: "list_all (fits cctx) cs" by simp_all
  have "decompress_loop dctx (concat (map (encode_block cctx) (c # cs)) @ rest) out =
      decompress_loop dctx (encode_block cctx c @ (concat (map (encode_block cctx) cs) @ rest)) out"
    by simp
  also have "\<dots> = decompress_loop dctx (concat (map (encode_block cctx) cs) @ rest) (out @ c)"
    by (rule decode_block[OF rt f])
  also have "\<dots> = decompress_loop dctx rest ((out @ c) @ concat cs)"
    by (rule Cons.IH[OF fs])
  finally show ?case by simp
qed

lemma concat_chunks:
  "chunk_size \<noteq> 0 \<Longrightarrow> - 1 \<le> chunk_size \<Longrightarrow> chunk_size < 9223372036854775775 \<Longrightarrow>
     concat (chunks chunk_size f_in) = f_in"
proof (induction chunk_size f_in rule: chunks.induct)
  case (1 chunk_size f_in)
  from "1.prems" obtain r where r: "file_read chunk_size f_in = Inr r"
    by (cases "file_read chunk_size f_in") (auto simp: file_read_Inl_iff)
  show ?case
  proof (cases "fst r = []")
    case True
    then have e: "f_in = []" using file_read_Inr(4)[OF r] "1.prems" by simp
    have "chunks chunk_size f_in = []"
      using True by (subst chunks.simps) (simp add: r)
    then show ?thesis by (simp add: e)
  next
    case False
    show ?thesis using False "1.IH"[OF r False "1.prems"] file_read_Inr(3)[OF r]
      by (subst chunks.simps) (simp add: r)
  qed
qed

lemma chunks_bounds:
  "c \<in> set (chunks chunk_size f_in) \<Longrightarrow>
     1 \<le> length c \<and> (0 \<le> chunk_size \<longrightarrow> int (length c) \<le> chunk_size)"
proof (induction chunk_size f_in rule: chunks.induct)
  case (1 chunk_size f_in)
  show ?case
  proof (cases "file_read chunk_size f_in")
    case (Inl e)
    then show ?thesis using "1.prems" by (simp add: chunks_read_error)
  next
    case (Inr r)
    show ?thesis
    proof (cases "fst r = []")
      case True
      then show ?thesis using "1.prems" by (subst (asm) chunks.simps) (simp add: Inr)
    next
      case False
      from "1.prems" have "c = fst r \<or> c \<in> set (chunks chunk_size (snd r))"
        using False by (subst (asm) chunks.simps) (simp add: Inr)
      then show ?thesis
      proof
        assume c: "c = fst r"
        then have "c \<noteq> []" using False by simp
        then have "1 \<le> length c" by (cases c) simp_all
        moreover have "0 \<le> chunk_size \<longrightarrow> int (length c) \<le> chunk_size"
          unfolding c using file_read_Inr(5)[OF Inr] by simp
        ultimately show ?thesis by simp
      next
        assume "c \<in> set (chunks chunk_size (snd r))"
        then show ?thesis by (rule "1.IH"[OF Inr False])
      qed
    qed
  qed
qed

lemma chunks_Nil: "chunks chunk_size [] = []"
  by (subst chunks.simps) (simp add: file_read_def)

lemma chunks_zero: "chunks 0 f_in = []"
  by (subst chunks.simps) (simp add: file_read_def)

lemma decompress_loop_Nil: "decompress_loop dctx [] out = (out, None)"
  by (subst decompress_loop.simps) (simp add: file_read_8)


lemma compress_file_out:
  "f_out (fst (compress_file compress input chunk_size level)) =
     concat (map (encode_block (compress level))
       (takeWhile (fits (compress level)) (chunks chunk_size input)))"
  using compress_loop_result[of "compress level" chunk_size input
      "\<lparr>f_out = [], total_original = 0, total_compressed = 0\<rparr>"]
  by (simp add: compress_file_def Let_def split: option.splits)

lemma compress_file_status:
  "snd (compress_file compress input chunk_size level) = Some e \<longleftrightarrow>
     (if chunk_size < - 1 then e = ValueError
      else if 9223372036854775775 \<le> chunk_size then e = OverflowError
      else if \<not> list_all (fits (compress level)) (chunks chunk_size input) then e = StructError
      else e = ZeroDivisionError \<and>
        total_compressed (fst (compress_loop (compress level) chunk_size input
          \<lparr>f_out = [], total_original = 0, total_compressed = 0\<rparr>)) = 0)"
  using compress_loop_result[of "compress level" chunk_size input
      "\<lparr>f_out = [], total_original = 0, total_compressed = 0\<rparr>"]
  by (auto simp: compress_file_def Let_def split: option.splits if_splits)

lemma compress_file_StructError:
  "snd (compress_file compress input chunk_size level) = Some StructError \<longleftrightarrow>
     \<not> list_all (fits (compress level)) (chunks chunk_size input)"
proof (cases "chunk_size < - 1 \<or> 9223372036854775775 \<le> chunk_size")
  case True
  then obtain e where "file_read chunk_size input = Inl e"
    by (auto simp: file_read_def)
  then have "chunks chunk_size input = []" by (rule chunks_read_error)
  then show ?thesis using True by (auto simp: compress_file_status)
next
  case False
  then show ?thesis by (auto simp: compress_file_status)
qed

lemma compress_file_OverflowError:
  "snd (compress_file compress input chunk_size level) = Some OverflowError \<longleftrightarrow>
     9223372036854775775 \<le> chunk_size"
  by (auto simp: compress_file_status)

text \<open>
  A sufficient condition for \<open>compress_file\<close> never to fail on a header: a chunk size
  below \<open>2^32\<close> and a compressor whose output on such chunks stays below \<open>2^32\<close> bytes.
\<close>

lemma no_StructError_if_bounded:
  assumes "0 \<le> chunk_size" "chunk_size < 4294967296"
    and "\<And>b. length b < 4294967296 \<Longrightarrow> length (compress level b) < 4294967296"
  shows "snd (compress_file compress input chunk_size level) \<noteq> Some StructError"
proof -
  have "fits (compress level) c" if "c \<in> set (chunks chunk_size input)" for c
  proof -
    from chunks_bounds[OF that] assms(1) have "int (length c) \<le> chunk_size" by simp
    with assms(2) have l: "length c < 4294967296" by simp
    then have "length (byte_split c) < 4294967296" by (simp add: length_byte_split)
    from assms(3)[OF this] l show ?thesis by (simp add: fits_def)
  qed
  then show ?thesis
    by (simp add: compress_file_StructError list_all_iff)
qed

section \<open>Evaluation on concrete inputs\<close>

lemma replicate_numeral: "replicate (numeral k) x = x # replicate (pred_numeral k) x"
  by (simp add: numeral_eq_Suc)

lemmas run_simps = replicate_numeral
  compress_file_def decompress_file_def compress_loop.simps decompress_loop.simps chunks.simps
  file_read_def Let_def pack_II_def unpack_II_def u32_le_def le_u32_def byte_split_def
  byte_unsplit_def np_assign_step2_def np_empty_def slice_def last1_def id_compress_def
  id_dctx_def encode_block_def fits_def

lemma id_backend_roundtrip: "id_dctx (id_compress level b) = Some b"
  by (simp add: id_dctx_def id_compress_def)



section \<open>Blocks on the wire\<close>

lemma length_encode_block:
  "length (encode_block cctx c) = 8 + length (cctx (byte_split c))"
  by (simp add: encode_block_def length_u32_le)

lemma encode_block_fields:
  assumes "fits cctx c"
  shows "unpack_II (take 8 (encode_block cctx c)) = Inr (length c, length (cctx (byte_split c)))"
    and "drop 8 (encode_block cctx c) = cctx (byte_split c)"
    and "map unat (take 4 (encode_block cctx c)) =
           [length c mod 256, length c div 256 mod 256, length c div 65536 mod 256,
            length c div 16777216 mod 256]"
    and "map unat (take 4 (drop 4 (encode_block cctx c))) =
           [length (cctx (byte_split c)) mod 256, length (cctx (byte_split c)) div 256 mod 256,
            length (cctx (byte_split c)) div 65536 mod 256,
            length (cctx (byte_split c)) div 16777216 mod 256]"
proof -
  let ?p = "cctx (byte_split c)"
  have t: "take 8 (encode_block cctx c) = u32_le (length c) @ u32_le (length ?p)"
    by (simp add: encode_block_def length_u32_le)
  show "unpack_II (take 8 (encode_block cctx c)) = Inr (length c, length ?p)"
    unfolding t using assms
    by (simp add: unpack_II_def length_u32_le le_u32_u32_le fits_def)
  show "drop 8 (encode_block cctx c) = ?p"
    by (simp add: encode_block_def length_u32_le)
  have "take 4 (encode_block cctx c) = u32_le (length c)"
    by (simp add: encode_block_def length_u32_le)
  then show "map unat (take 4 (encode_block cctx c)) =
           [length c mod 256, length c div 256 mod 256, length c div 65536 mod 256,
            length c div 16777216 mod 256]"
    by (simp only: u32_le_bytes)
  have "take 4 (drop 4 (encode_block cctx c)) = u32_le (length ?p)"
    by (simp add: encode_block_def length_u32_le)
  then show "map unat (take 4 (drop 4 (encode_block cctx c))) =
           [length ?p mod 256, length ?p div 256 mod 256, length ?p div 65536 mod 256,
            length ?p div 16777216 mod 256]"
    by (simp only: u32_le_bytes)
qed



text \<open>
  On an empty input nothing is written and both totals stay 0, so the summary after the
  loop divides by zero: \<open>compress_file\<close> leaves an empty output file and raises.
\<close>

lemma compress_file_empty_raises:
  "- 1 \<le> chunk_size \<Longrightarrow> chunk_size < 9223372036854775775 \<Longrightarrow>
   compress_file compress [] chunk_size level =
     (\<lparr>f_out = [], total_original = 0, total_compressed = 0\<rparr>, Some ZeroDivisionError)"
  by (simp add: compress_file_def compress_loop.simps file_read_def)

section \<open>The byte-plane transform\<close>

text \<open>
  C2. Applying the inverse transform of \<open>decompress_file\<close>, with \<open>original_len\<close> the
  length of the buffer, to the forward transform of \<open>compress_file\<close> returns the buffer,
  for every buffer, the empty and the one-byte buffer included. The forward transform
  keeps the length, and the inverse transform raises nothing on any planar buffer whose
  length is the \<open>original_len\<close> it is given.
\<close>

theorem byte_plane_roundtrip:
  "byte_unsplit (length buf) (byte_split buf) = Inr buf \<and>
   length (byte_split buf) = length buf \<and>
   (\<exists>out. byte_unsplit (length planar) planar = Inr out \<and> length out = length planar)"
proof -
  have "\<exists>out. byte_unsplit (length planar) planar = Inr out \<and> length out = length planar"
  proof (cases "byte_unsplit (length planar) planar")
    case (Inl e)
    then have "length planar < 2 * (length planar div 2)"
      by (simp add: byte_unsplit_Inl_iff)
    then show ?thesis by simp
  next
    case (Inr out)
    have "length out = length planar"
      using byte_unsplit_length[OF Inr] by (cases planar) auto
    with Inr show ?thesis by simp
  qed
  then show ?thesis
    by (simp add: byte_split_roundtrip length_byte_split)
qed

text \<open>
  C3. The forward transform of a chunk of length \<open>n\<close> is the even positions of its first
  \<open>n - n mod 2\<close> bytes, then their odd positions, then the last byte if \<open>n\<close> is odd; its
  length is \<open>n\<close>; and the seven bytes \<open>0..6\<close> become \<open>0,2,4,1,3,5,6\<close>.
\<close>

theorem byte_split_layout:
  "byte_split chunk = split_spec chunk \<and>
   length (byte_split chunk) = length chunk \<and>
   byte_split [0, 1, 2, 3, 4, 5, 6] = [0, 2, 4, 1, 3, 5, 6]"
proof -
  have "byte_split [0, 1, 2, 3, 4, 5, 6] = [0, 2, 4, 1, 3, 5, 6]"
    by (simp add: byte_split_def last1_def)
  then show ?thesis
    by (intro conjI) (rule byte_split_spec, rule length_byte_split)
qed

section \<open>The benchmark's transform\<close>

text \<open>
  C8. \<open>unsplit_bytes\<close> after \<open>split_bytes\<close> returns a buffer of even length unchanged. On a
  buffer of odd length \<open>split_bytes\<close> drops the last byte (its result is that of the
  buffer without it), so the round trip returns the buffer without its last byte and
  never the buffer itself.
\<close>

theorem benchmark_roundtrip_even_only:
  "(even (length d) \<longrightarrow> unsplit_bytes (split_bytes d) = Inr d) \<and>
   (odd (length d) \<longrightarrow>
      split_bytes d = split_bytes (butlast d) \<and>
      unsplit_bytes (split_bytes d) = Inr (butlast d) \<and>
      unsplit_bytes (split_bytes d) \<noteq> Inr d)"
proof -
  have "split_bytes d = split_bytes (butlast d)" if "odd (length d)"
  proof -
    from that have "d \<noteq> []" by auto
    with that show ?thesis
      by (simp add: split_bytes_def Let_def odd_iff_mod_2_eq_one)
  qed
  moreover have "butlast d \<noteq> d" if "odd (length d)"
  proof
    assume "butlast d = d"
    then have "length (butlast d) = length d" by simp
    then have "length d - 1 = length d" by simp
    with that show False by (cases "length d") auto
  qed
  ultimately show ?thesis
    by (auto simp: unsplit_split_bytes)
qed

theorem benchmark_roundtrip_even_only_witness:
  "unsplit_bytes (split_bytes [1, 2, 3, 4]) = Inr [1, 2, 3, 4] \<and>
   split_bytes [1, 2, 3] = split_bytes [1, 2] \<and>
   unsplit_bytes (split_bytes [1, 2, 3]) = Inr [1, 2] \<and>
   unsplit_bytes (split_bytes [1, 2, 3]) \<noteq> Inr [1, 2, 3]"
proof -
  have e: "even (length [1, 2, 3, 4 :: byte])" and o: "odd (length [1, 2, 3 :: byte])"
    and b: "butlast [1, 2, 3 :: byte] = [1, 2]"
    by simp_all
  from benchmark_roundtrip_even_only [of "[1, 2, 3, 4]"] e
  have 1: "unsplit_bytes (split_bytes [1, 2, 3, 4]) = Inr [1, 2, 3, 4]"
    by blast
  from benchmark_roundtrip_even_only [of "[1, 2, 3]"] o
  have 2: "split_bytes [1, 2, 3] = split_bytes (butlast [1, 2, 3]) \<and>
      unsplit_bytes (split_bytes [1, 2, 3]) = Inr (butlast [1, 2, 3]) \<and>
      unsplit_bytes (split_bytes [1, 2, 3]) \<noteq> Inr [1, 2, 3]"
    by blast
  from 1 2 [unfolded b] show ?thesis by blast
qed

section \<open>The stream round trip\<close>

text \<open>
  C1, as stated, at a chunk of \<open>2^32\<close> bytes: with the storing backend, which round-trips,
  \<open>chunk_size = 2^32\<close> and an input of \<open>2^32\<close> zero bytes, \<open>struct.pack\<close> raises on the
  first header, the file produced is empty, and decompressing it does not give the input
  back.
\<close>

theorem roundtrip_breaks_at_u32_bound:
  "fst (decompress_file id_dctx
      (f_out (fst (compress_file id_compress (replicate 4294967296 0) 4294967296 3))))
     \<noteq> replicate 4294967296 0"
proof -
  have c: "chunks 4294967296 (replicate 4294967296 0) = [replicate 4294967296 0]"
    by (subst chunks.simps, subst chunks.simps) (simp add: file_read_def)
  have "\<not> fits (id_compress 3) (replicate 4294967296 0)"
    by (simp add: fits_def)
  then have "f_out (fst (compress_file id_compress (replicate 4294967296 0) 4294967296 3)) = []"
    by (simp add: compress_file_out c)
  then show ?thesis
    by (simp add: decompress_file_def decompress_loop_Nil)
qed

text \<open>
  C1, amended. If the backend round-trips at the level used, \<open>chunk_size\<close> is at least 1
  and the loop of \<open>compress_file\<close> raises nothing, neither \<open>OverflowError\<close> on its read
  (\<open>chunk_size\<close> is below \<open>2^63 - 33\<close>) nor \<open>struct.error\<close> packing a header (no chunk
  and no payload reaches \<open>2^32\<close> bytes), then decompressing the file it produced ends
  without error and yields exactly the input. The file is the blocks of the chunks read,
  in reading order, and the chunks concatenated are the input.
\<close>

theorem compress_decompress_roundtrip:
  assumes "\<forall>b. dctx (compress level b) = Some b"
    and "1 \<le> chunk_size"
    and "snd (compress_file compress input chunk_size level) \<noteq> Some OverflowError"
    and "snd (compress_file compress input chunk_size level) \<noteq> Some StructError"
  shows "decompress_file dctx (f_out (fst (compress_file compress input chunk_size level))) =
           (input, None) \<and>
         f_out (fst (compress_file compress input chunk_size level)) =
           concat (map (encode_block (compress level)) (chunks chunk_size input)) \<and>
         concat (chunks chunk_size input) = input"
proof -
  let ?cs = "chunks chunk_size input"
  have rt: "\<And>b. dctx (compress level b) = Some b" using assms(1) by simp
  have cs: "chunk_size \<noteq> 0" "- 1 \<le> chunk_size" "chunk_size < 9223372036854775775"
    using assms(2,3) by (simp_all add: compress_file_OverflowError)
  have all: "list_all (fits (compress level)) ?cs"
    using assms(4) by (simp add: compress_file_StructError)
  then have tw: "takeWhile (fits (compress level)) ?cs = ?cs"
    by (simp add: list_all_iff)
  have "decompress_loop dctx (concat (map (encode_block (compress level)) ?cs) @ []) [] =
      decompress_loop dctx [] ([] @ concat ?cs)"
    by (rule decode_blocks[OF rt all])
  then show ?thesis
    by (simp add: decompress_file_def compress_file_out tw decompress_loop_Nil concat_chunks[OF cs])
qed

theorem compress_decompress_roundtrip_witness:
  "decompress_file id_dctx (f_out (fst (compress_file id_compress [1, 2, 3, 4, 5] 2 3))) =
     ([1, 2, 3, 4, 5], None) \<and>
   f_out (fst (compress_file id_compress [1, 2, 3, 4, 5] 2 3)) =
     [2, 0, 0, 0, 2, 0, 0, 0, 1, 2, 2, 0, 0, 0, 2, 0, 0, 0, 3, 4, 1, 0, 0, 0, 1, 0, 0, 0, 5]"
proof -
  have h1: "\<forall>b. id_dctx (id_compress 3 b) = Some b"
    by (simp add: id_backend_roundtrip)
  have h2: "(1::int) \<le> 2" by simp
  have v: "compress_file id_compress [1, 2, 3, 4, 5] 2 3 =
      (\<lparr>f_out = [2, 0, 0, 0, 2, 0, 0, 0, 1, 2, 2, 0, 0, 0, 2, 0, 0, 0, 3, 4, 1, 0, 0, 0, 1, 0, 0, 0, 5],
        total_original = 5, total_compressed = 5\<rparr>, None)"
    by (simp add: run_simps)
  have h3: "snd (compress_file id_compress [1, 2, 3, 4, 5] 2 3) \<noteq> Some OverflowError"
    by (simp add: v)
  have h4: "snd (compress_file id_compress [1, 2, 3, 4, 5] 2 3) \<noteq> Some StructError"
    by (simp add: v)
  from compress_decompress_roundtrip [OF h1 h2 h3 h4, THEN conjunct1] show ?thesis
    by (simp add: v)
qed

section \<open>What the decoder checks\<close>

text \<open>
  C4, as stated, on a stream whose header announces a payload of 5 bytes when 2 remain:
  with the storing backend the block is accepted and two bytes are written; no error is
  raised.
\<close>

theorem short_payload_accepted:
  "decompress_file id_dctx [2, 0, 0, 0, 5, 0, 0, 0, 7, 9] = ([7, 9], None)"
  by (simp add: run_simps)

text \<open>
  C4, amended. After a complete header the decoder reads at most \<open>compressed_len\<close> bytes:
  exactly that many when they remain, otherwise all that is left. It passes them to the
  backend without comparing their number with \<open>compressed_len\<close>. A short payload fails
  only where the backend rejects it (\<open>ZstdError\<close>) or a slice assignment of the inverse
  transform raises (\<open>ValueError\<close>); otherwise decoding goes on behind it.
\<close>

theorem payload_read_unchecked:
  assumes "length header = 8"
  shows "decompress_loop dctx (header @ rest) out =
     (case dctx (take (le_u32 (drop 4 header)) rest) of
        None \<Rightarrow> (out, Some ZstdError)
      | Some transformed_data \<Rightarrow>
          (case byte_unsplit (le_u32 (take 4 header)) transformed_data of
             Inl e \<Rightarrow> (out, Some e)
           | Inr chunk \<Rightarrow>
               decompress_loop dctx (drop (le_u32 (drop 4 header)) rest) (out @ chunk)))"
proof -
  have r: "file_read 8 (header @ rest) = Inr (header, rest)"
    using assms by (simp add: file_read_8)
  have ne: "header \<noteq> []" using assms by auto
  have u: "unpack_II header = Inr (le_u32 (take 4 header), le_u32 (drop 4 header))"
    using assms by (simp add: unpack_II_def)
  have "le_u32 (drop 4 header) < 4294967296"
    using assms by (simp add: le_u32_bound)
  then have p: "file_read (int (le_u32 (drop 4 header))) rest =
      Inr (take (le_u32 (drop 4 header)) rest, drop (le_u32 (drop 4 header)) rest)"
    by (rule file_read_nat)
  show ?thesis
    by (subst decompress_loop.simps)
       (simp only: r Let_def fst_conv snd_conv ne if_False u sum.case p)
qed

theorem payload_read_unchecked_witness:
  "length [2, 0, 0, 0, 5, 0, 0, 0 :: byte] = 8 \<and>
   decompress_loop id_dctx ([2, 0, 0, 0, 5, 0, 0, 0] @ [7, 9]) [] = ([7, 9], None)"
proof -
  have h: "length [2, 0, 0, 0, 5, 0, 0, 0 :: byte] = 8" by simp
  from payload_read_unchecked [OF h, of id_dctx "[7, 9]" "[]"] show ?thesis
    by (simp add: run_simps decompress_loop_Nil)
qed

text \<open>
  C5, as stated, on two blocks: one announces \<open>original_len = 1\<close> and carries a payload
  that decompresses to nothing, one announces \<open>original_len = 2\<close> and carries three
  bytes. Both are accepted; the first yields no byte at all, the second two bytes.
\<close>

theorem length_mismatch_accepted:
  "decompress_file id_dctx [1, 0, 0, 0, 0, 0, 0, 0] = ([], None) \<and>
   decompress_file id_dctx [2, 0, 0, 0, 3, 0, 0, 0, 7, 8, 9] = ([7, 8], None)"
  by (simp add: run_simps)

text \<open>
  C5, amended. The inverse transform compares no length with \<open>original_len\<close>. It raises,
  and then numpy's \<open>ValueError\<close>, exactly when the decompressed payload has fewer than
  \<open>2 * (original_len div 2)\<close> bytes and its length is not \<open>original_len div 2 + 1\<close>.
  Every other payload is accepted, a longer one included; the chunk written then has
  \<open>original_len\<close> bytes, except that an empty payload under an odd \<open>original_len\<close> gives
  one byte less.
\<close>

theorem unsplit_shape_check_only:
  "(byte_unsplit original_len transformed_data = Inl e \<longleftrightarrow>
      e = ValueError \<and> length transformed_data < 2 * (original_len div 2) \<and>
      length transformed_data \<noteq> original_len div 2 + 1) \<and>
   (byte_unsplit original_len transformed_data = Inr chunk \<longrightarrow>
      length chunk =
        (if original_len mod 2 \<noteq> 0 \<and> transformed_data = [] then original_len - 1
         else original_len))"
  using byte_unsplit_Inl_iff byte_unsplit_length by blast

theorem unsplit_shape_check_only_witness:
  "byte_unsplit 2 [7, 8, 9] = Inr [7, 8] \<and> byte_unsplit 1 [] = Inr [] \<and>
   byte_unsplit 4 [7] = Inl ValueError"
proof -
  have a: "byte_unsplit 2 [7, 8, 9] = Inr [7, 8]" and b: "byte_unsplit 1 [] = Inr []"
    by (simp_all add: run_simps)
  have "byte_unsplit 4 [7] = Inl ValueError"
    using unsplit_shape_check_only [of 4 "[7]" ValueError] by simp
  moreover have "length [7, 8 :: byte] = 2"
    using unsplit_shape_check_only [of 2 "[7, 8, 9]" ValueError "[7, 8]"] a by simp
  ultimately show ?thesis using a b by simp
qed

section \<open>Truncated streams\<close>

text \<open>
  The decoder itself does not look at the number of payload bytes it got: with a backend
  that accepts any buffer, the one-block stream of the input \<open>1, 2, 3\<close> cut by its last
  byte decodes without error to \<open>1, 2, 2\<close>. That a cut payload is noticed is the work of
  the backend.
\<close>

lemma cut_payload_left_to_backend:
  "f_out (fst (compress_file id_compress [1, 2, 3] 3 3)) = [3, 0, 0, 0, 3, 0, 0, 0, 1, 2, 3] \<and>
   decompress_file id_dctx (butlast [3, 0, 0, 0, 3, 0, 0, 0, 1, 2, 3]) = ([1, 2, 2], None)"
  by (simp add: run_simps)



section \<open>The container format\<close>

text \<open>
  C7. The output of \<open>compress_file\<close> is the concatenation, in reading order, of one block
  per chunk written. Each block is 8 header bytes and the payload, the compressor's
  output on the planar buffer of the chunk: the first four bytes are the length of the
  chunk, least significant byte first, the next four the length of the payload in the
  same way, and what follows the header is the payload itself, so the header's second
  field is exactly the number of payload bytes present.
\<close>

theorem block_layout:
  "f_out (fst (compress_file compress input chunk_size level)) =
     concat (map (encode_block (compress level))
       (takeWhile (fits (compress level)) (chunks chunk_size input))) \<and>
   (\<forall>c \<in> set (takeWhile (fits (compress level)) (chunks chunk_size input)).
      length (encode_block (compress level) c) = 8 + length (compress level (byte_split c)) \<and>
      map unat (take 4 (encode_block (compress level) c)) =
        [length c mod 256, length c div 256 mod 256, length c div 65536 mod 256,
         length c div 16777216 mod 256] \<and>
      map unat (take 4 (drop 4 (encode_block (compress level) c))) =
        [length (compress level (byte_split c)) mod 256,
         length (compress level (byte_split c)) div 256 mod 256,
         length (compress level (byte_split c)) div 65536 mod 256,
         length (compress level (byte_split c)) div 16777216 mod 256] \<and>
      unpack_II (take 8 (encode_block (compress level) c)) =
        Inr (length c, length (compress level (byte_split c))) \<and>
      drop 8 (encode_block (compress level) c) = compress level (byte_split c))"
proof -
  have "fits (compress level) c"
    if "c \<in> set (takeWhile (fits (compress level)) (chunks chunk_size input))" for c
    using that by (rule set_takeWhileD[THEN conjunct2])
  then show ?thesis
    by (simp add: compress_file_out length_encode_block encode_block_fields)
qed

theorem block_layout_witness:
  "f_out (fst (compress_file id_compress [1, 2, 3] 2 3)) =
     [2, 0, 0, 0, 2, 0, 0, 0, 1, 2, 1, 0, 0, 0, 1, 0, 0, 0, 3] \<and>
   [1, 2] \<in> set (takeWhile (fits (id_compress 3)) (chunks 2 [1, 2, 3])) \<and>
   encode_block (id_compress 3) [1, 2] = [2, 0, 0, 0, 2, 0, 0, 0, 1, 2] \<and>
   unpack_II (take 8 (encode_block (id_compress 3) [1, 2])) = Inr (2, 2)"
proof -
  have m: "[1, 2] \<in> set (takeWhile (fits (id_compress 3)) (chunks 2 [1, 2, 3]))"
    by (simp add: run_simps)
  have o: "f_out (fst (compress_file id_compress [1, 2, 3] 2 3)) =
     [2, 0, 0, 0, 2, 0, 0, 0, 1, 2, 1, 0, 0, 0, 1, 0, 0, 0, 3]"
    by (simp add: run_simps)
  have e: "encode_block (id_compress 3) [1, 2] = [2, 0, 0, 0, 2, 0, 0, 0, 1, 2]"
    by (simp add: run_simps)
  have "unpack_II (take 8 (encode_block (id_compress 3) [1, 2])) =
      Inr (length [1, 2 :: byte], length (id_compress 3 (byte_split [1, 2])))"
    using block_layout [of id_compress "[1, 2, 3]" 2 3] m by blast
  then have "unpack_II (take 8 (encode_block (id_compress 3) [1, 2])) = Inr (2, 2)"
    by (simp add: id_compress_def byte_split_def)
  with m o e show ?thesis by blast
qed

text \<open>
  C9. \<open>compress_file\<close> writes no block with \<open>original_len = 0\<close>: the loop ends on the first
  empty read, before anything is written for it. Every block in the output carries the
  length of a chunk that was read, which is at least 1 and, for a chunk size that is a
  size (not negative), at most \<open>chunk_size\<close>. An empty input gives no chunk and an empty
  output file; the call then ends in the summary's division by \<open>total_compressed = 0\<close>.
\<close>

theorem no_empty_block:
  "f_out (fst (compress_file compress input chunk_size level)) =
     concat (map (encode_block (compress level))
       (takeWhile (fits (compress level)) (chunks chunk_size input))) \<and>
   (\<forall>c \<in> set (takeWhile (fits (compress level)) (chunks chunk_size input)).
      unpack_II (take 8 (encode_block (compress level) c)) =
        Inr (length c, length (compress level (byte_split c))) \<and>
      1 \<le> length c \<and>
      (0 \<le> chunk_size \<longrightarrow> int (length c) \<le> chunk_size)) \<and>
   chunks chunk_size [] = [] \<and>
   f_out (fst (compress_file compress [] chunk_size level)) = [] \<and>
   (- 1 \<le> chunk_size \<and> chunk_size < 9223372036854775775 \<longrightarrow>
      snd (compress_file compress [] chunk_size level) = Some ZeroDivisionError)"
proof -
  have "fits (compress level) c \<and> c \<in> set (chunks chunk_size input)"
    if "c \<in> set (takeWhile (fits (compress level)) (chunks chunk_size input))" for c
    using that set_takeWhileD by metis
  then have "\<forall>c \<in> set (takeWhile (fits (compress level)) (chunks chunk_size input)).
      unpack_II (take 8 (encode_block (compress level) c)) =
        Inr (length c, length (compress level (byte_split c))) \<and>
      1 \<le> length c \<and>
      (0 \<le> chunk_size \<longrightarrow> int (length c) \<le> chunk_size)"
    using chunks_bounds encode_block_fields(1) by blast
  then show ?thesis
    by (simp add: compress_file_out chunks_Nil compress_file_empty_raises)
qed

theorem no_empty_block_witness:
  "f_out (fst (compress_file id_compress [1, 2, 3] 2 3)) =
     encode_block (id_compress 3) [1, 2] @ encode_block (id_compress 3) [3] \<and>
   takeWhile (fits (id_compress 3)) (chunks 2 [1, 2, 3]) = [[1, 2], [3]] \<and>
   1 \<le> length [3 :: byte] \<and> int (length [3 :: byte]) \<le> 2 \<and>
   f_out (fst (compress_file id_compress [] 2 3)) = [] \<and>
   snd (compress_file id_compress [] 2 3) = Some ZeroDivisionError"
proof -
  have c: "takeWhile (fits (id_compress 3)) (chunks 2 [1, 2, 3]) = [[1, 2], [3]]"
    by (simp add: run_simps)
  have m: "[3] \<in> set (takeWhile (fits (id_compress 3)) (chunks 2 [1, 2, 3]))"
    by (simp add: c)
  have z: "(0::int) \<le> 2" by simp
  note t = no_empty_block [of id_compress "[1, 2, 3]" 2 3]
  from t have "f_out (fst (compress_file id_compress [1, 2, 3] 2 3)) =
     concat (map (encode_block (id_compress 3))
       (takeWhile (fits (id_compress 3)) (chunks 2 [1, 2, 3])))" by blast
  then have o: "f_out (fst (compress_file id_compress [1, 2, 3] 2 3)) =
     encode_block (id_compress 3) [1, 2] @ encode_block (id_compress 3) [3]"
    by (simp add: c)
  from t m z have b: "1 \<le> length [3 :: byte] \<and> int (length [3 :: byte]) \<le> 2" by blast
  have r: "- 1 \<le> (2::int) \<and> (2::int) < 9223372036854775775" by simp
  from no_empty_block [of id_compress "[]" 2 3] r
  have e: "f_out (fst (compress_file id_compress [] 2 3)) = [] \<and>
      snd (compress_file id_compress [] 2 3) = Some ZeroDivisionError" by blast
  from o c b e show ?thesis by blast
qed

text \<open>
  C10. \<open>struct.pack\<close> raises exactly when one of the two lengths is \<open>2^32\<close> or more, and a
  header it returns has 8 bytes and unpacks to the two lengths themselves. So
  \<open>compress_file\<close> fails with \<open>struct.error\<close> exactly when some chunk read, or its
  compressed payload, reaches \<open>2^32\<close> bytes; the file then holds the complete blocks of the
  chunks before it and nothing of the failing one. Whenever it does not fail in this way,
  every chunk has its block in the file and each header unpacks to the true lengths.
\<close>

theorem header_u32_bound:
  "(pack_II a b = Inl StructError \<longleftrightarrow> \<not> (a < 4294967296 \<and> b < 4294967296)) \<and>
   (pack_II a b = Inr h \<longrightarrow> length h = 8 \<and> unpack_II h = Inr (a, b)) \<and>
   (snd (compress_file compress input chunk_size level) = Some StructError \<longleftrightarrow>
      \<not> list_all (fits (compress level)) (chunks chunk_size input)) \<and>
   f_out (fst (compress_file compress input chunk_size level)) =
     concat (map (encode_block (compress level))
       (takeWhile (fits (compress level)) (chunks chunk_size input))) \<and>
   (snd (compress_file compress input chunk_size level) \<noteq> Some StructError \<longrightarrow>
      f_out (fst (compress_file compress input chunk_size level)) =
        concat (map (encode_block (compress level)) (chunks chunk_size input)) \<and>
      (\<forall>c \<in> set (chunks chunk_size input).
         unpack_II (take 8 (encode_block (compress level) c)) =
           Inr (length c, length (compress level (byte_split c)))))"
proof -
  have p: "pack_II a b = Inl StructError \<longleftrightarrow> \<not> (a < 4294967296 \<and> b < 4294967296)"
    by (simp add: pack_II_def)
  have q: "pack_II a b = Inr h \<longrightarrow> length h = 8 \<and> unpack_II h = Inr (a, b)"
    using pack_unpack by blast
  have r: "f_out (fst (compress_file compress input chunk_size level)) =
        concat (map (encode_block (compress level)) (chunks chunk_size input)) \<and>
      (\<forall>c \<in> set (chunks chunk_size input).
         unpack_II (take 8 (encode_block (compress level) c)) =
           Inr (length c, length (compress level (byte_split c))))"
    if "snd (compress_file compress input chunk_size level) \<noteq> Some StructError"
  proof -
    from that have all: "list_all (fits (compress level)) (chunks chunk_size input)"
      by (simp add: compress_file_StructError)
    then have tw: "takeWhile (fits (compress level)) (chunks chunk_size input) = chunks chunk_size input"
      by (simp add: list_all_iff)
    have "f_out (fst (compress_file compress input chunk_size level)) =
        concat (map (encode_block (compress level)) (chunks chunk_size input))"
      by (simp only: compress_file_out tw)
    then show ?thesis
      using all by (simp add: list_all_iff encode_block_fields(1))
  qed
  show ?thesis
    using p q r compress_file_StructError compress_file_out by blast
qed

theorem header_u32_bound_witness:
  "pack_II 3 4294967296 = Inl StructError \<and>
   pack_II 3 5 = Inr [3, 0, 0, 0, 5, 0, 0, 0] \<and>
   unpack_II [3, 0, 0, 0, 5, 0, 0, 0] = Inr (3, 5) \<and>
   snd (compress_file bloat_compress [1] 1 3) = Some StructError \<and>
   f_out (fst (compress_file bloat_compress [1] 1 3)) = [] \<and>
   f_out (fst (compress_file id_compress [1, 2, 3] 2 3)) =
     concat (map (encode_block (id_compress 3)) (chunks 2 [1, 2, 3])) \<and>
   unpack_II (take 8 (encode_block (id_compress 3) [3])) = Inr (1, 1)"
proof -
  have c: "chunks 1 [1] = [[1]]"
    by (simp add: chunks.simps file_read_def)
  have nf: "\<not> fits (bloat_compress 3) [1]"
    by (simp add: fits_def bloat_compress_def)
  have c2: "chunks 2 [1, 2, 3] = [[1, 2], [3]]"
    by (simp add: run_simps)
  have ok: "list_all (fits (id_compress 3)) (chunks 2 [1, 2, 3])"
    by (simp add: c2 fits_def id_compress_def byte_split_def last1_def)
  have pk: "pack_II 3 5 = Inr [3, 0, 0, 0, 5, 0, 0, 0]"
    by (simp add: pack_II_def u32_le_def)
  note b = header_u32_bound [of 3 4294967296 "[]" bloat_compress "[1]" 1 3]
  note g = header_u32_bound [of 3 5 "[3, 0, 0, 0, 5, 0, 0, 0]" id_compress "[1, 2, 3]" 2 3]
  have 1: "pack_II 3 4294967296 = Inl StructError" using b by simp
  have 2: "unpack_II [3, 0, 0, 0, 5, 0, 0, 0] = Inr (3, 5)" using g pk by blast
  have 3: "snd (compress_file bloat_compress [1] 1 3) = Some StructError"
    using b nf by (simp add: c)
  have 4: "f_out (fst (compress_file bloat_compress [1] 1 3)) = []"
    using b nf by (simp add: c)
  have ns: "snd (compress_file id_compress [1, 2, 3] 2 3) \<noteq> Some StructError"
    using g ok by blast
  have 5: "f_out (fst (compress_file id_compress [1, 2, 3] 2 3)) =
     concat (map (encode_block (id_compress 3)) (chunks 2 [1, 2, 3]))"
    using g ns by blast
  have m: "[3] \<in> set (chunks 2 [1, 2, 3])" by (simp add: c2)
  have "unpack_II (take 8 (encode_block (id_compress 3) [3])) =
      Inr (length [3 :: byte], length (id_compress 3 (byte_split [3])))"
    using g ns m by blast
  then have 6: "unpack_II (take 8 (encode_block (id_compress 3) [3])) = Inr (1, 1)"
    by (simp add: id_compress_def byte_split_def last1_def)
  from 1 pk 2 3 4 5 6 show ?thesis by blast
qed

end
